theory Spec2Isabelle
  imports Main "HOL-Library.AList" "HOL-Library.Multiset"
begin

section \<open>Data model of the orchestrator (src/utils/OrchestRate.tsx)\<close>

text \<open>
  The values an effect can produce or throw. Only the fragment of JavaScript values that
  the orchestrator inspects is modelled: it stores a returned value as it is, and of a
  thrown value it reads \<^verbatim>\<open>error.message\<close> when \<^verbatim>\<open>error instanceof Error\<close>
  and \<^verbatim>\<open>String(error)\<close> otherwise. \<open>Unconvertible\<close> stands for the thrown values
  for which that conversion itself throws a \<^verbatim>\<open>TypeError\<close>, such as an object without
  a prototype (\<^verbatim>\<open>Object.create(null)\<close>).
\<close>

datatype jsvalue = Undefined | Null | Boolean bool | Str string

datatype thrown = ErrorObject string | NonError jsvalue | Unconvertible

datatype js_error = TypeError

fun to_String :: "jsvalue \<Rightarrow> string" where
  "to_String Undefined = ''undefined''"
| "to_String Null = ''null''"
| "to_String (Boolean b) = (if b then ''true'' else ''false'')"
| "to_String (Str s) = s"

text \<open>\<^verbatim>\<open>error instanceof Error ? error.message : String(error)\<close>: the message, or the
  exception that the conversion raises.\<close>

fun error_message :: "thrown \<Rightarrow> js_error + string" where
  "error_message (ErrorObject m) = Inr m"
| "error_message (NonError v) = Inr (to_String v)"
| "error_message Unconvertible = Inl TypeError"

text \<open>
  \<^verbatim>\<open>type EffectFunction = () => Promise<any> | any\<close>. An item's effect is called at most
  once (the store is cleared after the pass that calls it), so an effect is modelled by
  what that one call does: it returns a plain value, throws, or returns a promise that is
  later fulfilled or rejected.
\<close>

datatype outcome = Returns jsvalue | Throws thrown | Resolves jsvalue | Rejects thrown

record orchestration_item =
  ident :: string
  effect :: outcome
  priority :: int
  preDelay :: int
  postDelay :: int
  timeout :: "int option"

record options =
  opt_priority :: "int option"
  opt_preDelay :: "int option"
  opt_postDelay :: "int option"
  opt_timeout :: "int option"

text \<open>
  An entry of the results object: the effect's value, or \<^verbatim>\<open>{error: message}\<close>. The
  results object \<^verbatim>\<open>{}\<close> is used as a dictionary from ids to entries: the association
  list of its own properties, kept in the order of their first assignment (the object
  itself enumerates integer-like keys first; nothing below depends on the order).
  \<open>assign\<close> is \<^verbatim>\<open>results[k] = v\<close>: for the key \<^verbatim>\<open>__proto__\<close> the assignment reaches
  the accessor of \<^verbatim>\<open>Object.prototype\<close> and creates no own property, for every other
  key it sets the property. Priorities and delays are integers.
\<close>

datatype entry = Val jsvalue | Err string

type_synonym result_map = "(string \<times> entry) list"

definition assign :: "string \<Rightarrow> entry \<Rightarrow> result_map \<Rightarrow> result_map" where
  "assign k v res = (if k = ''__proto__'' then res else AList.update k v res)"

text \<open>
  Observation points of a pass, in the order in which they happen. \<open>Started\<close> is the
  admission of a pass, with the store's items at that moment in insertion order (the copy
  \<^verbatim>\<open>[...queue]\<close> that is sorted), \<open>Sleep\<close> a \<^verbatim>\<open>setTimeout\<close> of a pre- or
  post-delay, \<open>Invoked\<close> the call \<^verbatim>\<open>item.effect()\<close>, \<open>Recorded\<close> the assignment
  to \<^verbatim>\<open>results[item.id]\<close>, and \<open>PassDone\<close> the end of the pass (after
  \<^verbatim>\<open>queue.clear()\<close>) with the run order and the results object it built.
\<close>

datatype pevent =
    Started "orchestration_item list"
  | Sleep string int
  | Invoked string
  | Recorded string entry
  | PassDone "orchestration_item list" result_map

text \<open>
  An activation of \<^verbatim>\<open>execute()\<close> that is suspended at an \<^verbatim>\<open>await\<close> inside the loop:
  its local variables and the place where it resumes. \<open>owners\<close> are the callers whose
  promises follow the promise of this activation (fulfilled with what it returns,
  rejected with what it throws); \<open>deferred\<close> are the callers of continuations drained
  into this activation: a continuation calls their \<^verbatim>\<open>resolve\<close> with what the
  activation returns and never settles them when it throws.
\<close>

datatype resume_point = AwaitPreDelay | AwaitEffect | AwaitPostDelay

record frame =
  deferred :: "nat list"
  owners :: "nat list"
  results :: result_map
  sortedQueue :: "orchestration_item list"
  idx :: nat
  item :: orchestration_item
  at :: resume_point

text \<open>
  The closure state of \<^verbatim>\<open>createOrchestrator\<close>: the \<^verbatim>\<open>Set\<close> in insertion order,
  the busy flag and the list of deferred continuations (each given by the callers it
  resolves); then the suspended activations, the number of \<^verbatim>\<open>execute()\<close> calls made
  by callers so far (a caller is named by the number of its call), the promises that
  have been fulfilled, the callers whose promise has been rejected, and the
  observations.
\<close>

record state =
  queue :: "orchestration_item list"
  isPerforming :: bool
  executionQueue :: "nat list list"
  passes :: "frame list"
  calls :: nat
  settled :: "(nat \<times> result_map) list"
  rejected :: "nat list"
  trace :: "pevent list"

definition init :: state where
  "init = \<lparr>queue = [], isPerforming = False, executionQueue = [], passes = [],
           calls = 0, settled = [], rejected = [], trace = []\<rparr>"

section \<open>Registration and cancellation\<close>

text \<open>
  \<open>mk_item\<close> is the object literal of \<^verbatim>\<open>orchestrate\<close> with the defaults of
  the destructuring \<^verbatim>\<open>{ priority = 0, preDelay = 0, postDelay = 0, timeout }\<close>. Then
  \<^verbatim>\<open>queue.delete([...queue].find((i) => i.id === id) || item); queue.add(item)\<close>.
  Every call builds a new object, so the set never holds one object twice and is a list
  in insertion order. \<open>find\<close> returns the first item with the id; deleting it is
  \<open>remove1\<close> (an item equal to it has the same id, so it is the first such one). When
  nothing is found the new object is deleted, which is not in the set.
\<close>

definition mk_item :: "string \<Rightarrow> outcome \<Rightarrow> options \<Rightarrow> orchestration_item" where
  "mk_item i e opts =
     \<lparr>ident = i, effect = e,
      priority = (case opt_priority opts of None \<Rightarrow> 0 | Some p \<Rightarrow> p),
      preDelay = (case opt_preDelay opts of None \<Rightarrow> 0 | Some d \<Rightarrow> d),
      postDelay = (case opt_postDelay opts of None \<Rightarrow> 0 | Some d \<Rightarrow> d),
      timeout = opt_timeout opts\<rparr>"

definition orchestrate :: "string \<Rightarrow> outcome \<Rightarrow> options \<Rightarrow> state \<Rightarrow> state" where
  "orchestrate i e opts s =
     (let it = mk_item i e opts;
          victim = (case find (\<lambda>x. ident x = i) (queue s) of Some f \<Rightarrow> f | None \<Rightarrow> it)
      in s\<lparr>queue := remove1 victim (queue s) @ [it]\<rparr>)"

definition cancel :: "string \<Rightarrow> state \<Rightarrow> state" where
  "cancel i s =
     (case find (\<lambda>x. ident x = i) (queue s) of
        Some f \<Rightarrow> s\<lparr>queue := remove1 f (queue s)\<rparr>
      | None \<Rightarrow> s)"

section \<open>The run order\<close>

text \<open>
  \<^verbatim>\<open>[...queue].sort((a, b) => b.priority - a.priority)\<close>. \<^verbatim>\<open>Array.prototype.sort\<close>
  is stable and orders by the sign of the comparator; a stable insertion sort with the
  same comparator computes the same array.
\<close>

definition compare_priority :: "orchestration_item \<Rightarrow> orchestration_item \<Rightarrow> int" where
  "compare_priority a b = priority b - priority a"

fun insert_by :: "('a \<Rightarrow> 'a \<Rightarrow> int) \<Rightarrow> 'a \<Rightarrow> 'a list \<Rightarrow> 'a list" where
  "insert_by c x [] = [x]"
| "insert_by c x (y # ys) = (if c x y \<le> 0 then x # y # ys else y # insert_by c x ys)"

fun sort_by :: "('a \<Rightarrow> 'a \<Rightarrow> int) \<Rightarrow> 'a list \<Rightarrow> 'a list" where
  "sort_by c [] = []"
| "sort_by c (x # xs) = insert_by c x (sort_by c xs)"

section \<open>The pass and its serialisation\<close>

definition resolve :: "nat list \<Rightarrow> result_map \<Rightarrow> state \<Rightarrow> state" where
  "resolve ws r s = s\<lparr>settled := settled s @ map (\<lambda>c. (c, r)) ws\<rparr>"

text \<open>
  \<^verbatim>\<open>await Promise.resolve(item.effect())\<close> inside \<^verbatim>\<open>try\<close>: a value, or the exception
  that reaches \<^verbatim>\<open>catch\<close>. \<open>record_outcome\<close> is the \<^verbatim>\<open>try\<close>/\<^verbatim>\<open>catch\<close> statement:
  the entry to assign, or the exception that leaves the \<^verbatim>\<open>catch\<close> block when the
  message cannot be taken (the conversion is evaluated there without a guard).
\<close>

fun await_effect :: "outcome \<Rightarrow> thrown + jsvalue" where
  "await_effect (Returns v) = Inr v"
| "await_effect (Resolves v) = Inr v"
| "await_effect (Throws t) = Inl t"
| "await_effect (Rejects t) = Inl t"

definition record_outcome :: "outcome \<Rightarrow> js_error + entry" where
  "record_outcome e =
     (case await_effect e of
        Inr v \<Rightarrow> Inr (Val v)
      | Inl t \<Rightarrow> (case error_message t of Inl x \<Rightarrow> Inl x | Inr m \<Rightarrow> Inr (Err m)))"

text \<open>
  The call \<^verbatim>\<open>item.effect()\<close> and the suspension that follows it. The activation is
  suspended after every call of an effect, also of one that throws synchronously (where
  the source reaches \<^verbatim>\<open>catch\<close> without an \<^verbatim>\<open>await\<close>): the body of an effect may
  itself call \<^verbatim>\<open>orchestrate\<close>, \<^verbatim>\<open>cancel\<close> or \<^verbatim>\<open>execute\<close>, and those calls are
  the events that a run may place between \<open>Invoked\<close> and the resumption.
\<close>

definition invoke :: "frame \<Rightarrow> state \<Rightarrow> state" where
  "invoke fr s =
     s\<lparr>trace := trace s @ [Invoked (ident (item fr))],
       passes := passes s @ [fr\<lparr>at := AwaitEffect\<rparr>]\<rparr>"

text \<open>
  \<open>execute ds ws s\<close> is a call of \<^verbatim>\<open>execute()\<close> up to its first suspension or its
  return, for the callers \<open>ws\<close> and the deferred callers \<open>ds\<close>. While a pass runs the
  call returns a new promise that only its continuation resolves, so all its callers
  become deferred ones. \<open>loop ds ws res sq i s\<close> is the head of the \<^verbatim>\<open>for\<close> loop over
  \<open>sq\<close> at index \<open>i\<close> with results object \<open>res\<close>, and what follows the loop. A
  deferred continuation \<open>k\<close> calls \<^verbatim>\<open>execute()\<close> again and hands its result to its
  deferred callers and, through \<^verbatim>\<open>return nextExecution()\<close>, to the callers of the pass
  that drained it.
\<close>

function execute :: "nat list \<Rightarrow> nat list \<Rightarrow> state \<Rightarrow> state"
  and loop :: "nat list \<Rightarrow> nat list \<Rightarrow> result_map \<Rightarrow> orchestration_item list \<Rightarrow> nat \<Rightarrow>
               state \<Rightarrow> state"
where
  "execute ds ws s =
     (if isPerforming s then s\<lparr>executionQueue := executionQueue s @ [ds @ ws]\<rparr>
      else if queue s = [] then resolve (ds @ ws) [] s
      else loop ds ws [] (sort_by compare_priority (queue s)) 0
             (s\<lparr>isPerforming := True,
                trace := trace s @ [Started (queue s)]\<rparr>))"
| "loop ds ws res sq i s =
     (if i < length sq then
        (let it = sq ! i;
             fr = \<lparr>deferred = ds, owners = ws, results = res, sortedQueue = sq, idx = Suc i,
                   item = it, at = AwaitEffect\<rparr>
         in if preDelay it \<noteq> 0
            then s\<lparr>trace := trace s @ [Sleep (ident it) (preDelay it)],
                   passes := passes s @ [fr\<lparr>at := AwaitPreDelay\<rparr>]\<rparr>
            else invoke fr s)
      else
        (let s1 = s\<lparr>queue := [], isPerforming := False,
                    trace := trace s @ [PassDone sq res]\<rparr>
         in case executionQueue s1 of
              [] \<Rightarrow> resolve (ds @ ws) res s1
            | k # ks \<Rightarrow> execute (k @ ds) ws (s1\<lparr>executionQueue := ks\<rparr>)))"
  by pat_completeness auto
termination
  by (relation "measure (\<lambda>x. case x of
          Inl (ds, ws, s) \<Rightarrow> if queue s = [] then 0 else 2
        | Inr (ds, ws, res, sq, i, s) \<Rightarrow> 1)") auto

declare execute.simps [simp del] loop.simps [simp del]

text \<open>
  A suspended activation continues after its \<^verbatim>\<open>await\<close>: after the pre-delay the effect
  is called; after the effect the \<^verbatim>\<open>try\<close>/\<^verbatim>\<open>catch\<close> assigns
  \<^verbatim>\<open>results[item.id]\<close> and the post-delay is awaited if it is truthy; after the
  post-delay the loop takes the next item. When the \<^verbatim>\<open>catch\<close> block itself throws, the
  exception leaves the loop and the function: the promise of the activation is rejected,
  and neither \<^verbatim>\<open>queue.clear()\<close> nor \<^verbatim>\<open>isPerforming = false\<close> is reached.
\<close>

definition resume :: "frame \<Rightarrow> state \<Rightarrow> state" where
  "resume fr s =
     (case at fr of
        AwaitPreDelay \<Rightarrow> invoke fr s
      | AwaitEffect \<Rightarrow>
          (let it = item fr
           in case record_outcome (effect it) of
                Inl x \<Rightarrow> s\<lparr>rejected := rejected s @ owners fr\<rparr>
              | Inr en \<Rightarrow>
                  (let res = assign (ident it) en (results fr);
                       s1 = s\<lparr>trace := trace s @ [Recorded (ident it) en]\<rparr>
                   in if postDelay it \<noteq> 0
                      then s1\<lparr>trace := trace s1 @ [Sleep (ident it) (postDelay it)],
                              passes := passes s1 @
                                [fr\<lparr>results := res, at := AwaitPostDelay\<rparr>]\<rparr>
                      else loop (deferred fr) (owners fr) res (sortedQueue fr) (idx fr) s1))
      | AwaitPostDelay \<Rightarrow>
          loop (deferred fr) (owners fr) (results fr) (sortedQueue fr) (idx fr) s)"

section \<open>Runs\<close>

text \<open>
  What can happen to an orchestrator: a caller registers, cancels or requests execution
  (at any moment, also while a pass is suspended), or the wait of a suspended
  activation ends (\<open>Resume n\<close> for the \<open>n\<close>-th suspended activation: its timer fires or
  the promise of its effect settles). A run is a list of such events applied to the
  initial state; a timer or promise that never fires is a run without the \<open>Resume\<close>.
\<close>

datatype event = Orchestrate string outcome options | Cancel string | Execute | Resume nat

fun step :: "event \<Rightarrow> state \<Rightarrow> state" where
  "step (Orchestrate i e opts) s = orchestrate i e opts s"
| "step (Cancel i) s = cancel i s"
| "step Execute s = execute [] [calls s] (s\<lparr>calls := Suc (calls s)\<rparr>)"
| "step (Resume n) s =
     (if n < length (passes s)
      then resume (passes s ! n) (s\<lparr>passes := take n (passes s) @ drop (Suc n) (passes s)\<rparr>)
      else s)"

definition run :: "event list \<Rightarrow> state \<Rightarrow> state" where
  "run evs s = foldl (\<lambda>s e. step e s) s evs"

section \<open>Closed forms and invariants used in the proofs\<close>

text \<open>A run order is descending when no item is followed by one of higher priority.\<close>

definition descending :: "orchestration_item list \<Rightarrow> bool" where
  "descending xs = sorted_wrt (\<lambda>a b. priority b \<le> priority a) xs"

text \<open>
  What a pass is shown to do, in closed form: the entry that is assigned for an outcome
  (when the \<^verbatim>\<open>catch\<close> block does not throw), the results object after the items \<open>sq\<close>
  have run, and the observations of one item (the tests on the delays are the source's
  truthiness tests \<^verbatim>\<open>if (item.preDelay)\<close> and \<^verbatim>\<open>if (item.postDelay)\<close>).
\<close>

definition entry_of :: "outcome \<Rightarrow> entry" where
  "entry_of e = (case record_outcome e of Inr en \<Rightarrow> en | Inl x \<Rightarrow> Err [])"

definition expected_results :: "orchestration_item list \<Rightarrow> result_map" where
  "expected_results sq =
     map (\<lambda>it. (ident it, entry_of (effect it))) (filter (\<lambda>it. ident it \<noteq> ''__proto__'') sq)"

definition pre_events :: "orchestration_item \<Rightarrow> pevent list" where
  "pre_events it = (if preDelay it \<noteq> 0 then [Sleep (ident it) (preDelay it)] else [])"

definition post_events :: "orchestration_item \<Rightarrow> pevent list" where
  "post_events it = (if postDelay it \<noteq> 0 then [Sleep (ident it) (postDelay it)] else [])"

definition item_events :: "orchestration_item \<Rightarrow> pevent list" where
  "item_events it =
     pre_events it @ [Invoked (ident it), Recorded (ident it) (entry_of (effect it))]
       @ post_events it"

text \<open>The observations of the current item of a suspended activation.\<close>

fun progress :: "resume_point \<Rightarrow> orchestration_item \<Rightarrow> pevent list" where
  "progress AwaitPreDelay it = pre_events it"
| "progress AwaitEffect it = pre_events it @ [Invoked (ident it)]"
| "progress AwaitPostDelay it = item_events it"

text \<open>
  The observations from the most recent admission on, the store's items at that
  admission, the ids of the effects called (in the order of the calls), and the whole
  record of a pass that was admitted with the items \<open>q\<close>.
\<close>

definition current_pass :: "pevent list \<Rightarrow> pevent list" where
  "current_pass tr = foldl (\<lambda>acc e. case e of Started q \<Rightarrow> [e] | _ \<Rightarrow> acc @ [e]) [] tr"

definition admitted :: "pevent list \<Rightarrow> orchestration_item list" where
  "admitted tr = (case current_pass tr of Started q # _ \<Rightarrow> q | _ \<Rightarrow> [])"

definition invoked :: "pevent list \<Rightarrow> string list" where
  "invoked tr = concat (map (\<lambda>e. case e of Invoked i \<Rightarrow> [i] | _ \<Rightarrow> []) tr)"

definition pass_record :: "orchestration_item list \<Rightarrow> pevent list" where
  "pass_record q =
     (let sq = sort_by compare_priority q
      in Started q # concat (map item_events sq) @ [PassDone sq (expected_results sq)])"

text \<open>
  The invariant. A suspended activation has a caller, works on the sorted copy of a store
  with distinct ids, has recorded exactly the items it has finished, and the observations
  since its admission are those of the finished items and of the current one. When the
  busy flag is clear, the observations since the last admission are a whole pass record.
  The flag is set while an activation is suspended and stays set once a call has been
  rejected. In every state the effects called since the last admission are an initial
  part of the run order.
\<close>

definition frame_ok :: "pevent list \<Rightarrow> frame \<Rightarrow> bool" where
  "frame_ok tr f \<longleftrightarrow>
     (\<exists>q. distinct (map ident q) \<and> sortedQueue f = sort_by compare_priority q \<and>
          owners f \<noteq> [] \<and>
          0 < idx f \<and> idx f \<le> length (sortedQueue f) \<and>
          item f = sortedQueue f ! (idx f - 1) \<and>
          (at f = AwaitPreDelay \<longrightarrow> preDelay (item f) \<noteq> 0) \<and>
          (at f = AwaitPostDelay \<longrightarrow> postDelay (item f) \<noteq> 0) \<and>
          results f = expected_results
             (take (if at f = AwaitPostDelay then idx f else idx f - 1) (sortedQueue f)) \<and>
          current_pass tr =
             Started q # concat (map item_events (take (idx f - 1) (sortedQueue f)))
               @ progress (at f) (item f))"

definition idle_ok :: "pevent list \<Rightarrow> bool" where
  "idle_ok tr \<longleftrightarrow> tr = [] \<or> (\<exists>q. distinct (map ident q) \<and> q \<noteq> [] \<and> current_pass tr = pass_record q)"

definition prefix_ok :: "pevent list \<Rightarrow> bool" where
  "prefix_ok tr \<longleftrightarrow>
     invoked (current_pass tr) =
       take (length (invoked (current_pass tr)))
         (map ident (sort_by compare_priority (admitted tr)))"

definition orchestrator_inv :: "state \<Rightarrow> bool" where
  "orchestrator_inv s \<longleftrightarrow>
     length (passes s) \<le> 1 \<and>
     (isPerforming s \<longleftrightarrow> passes s \<noteq> [] \<or> rejected s \<noteq> []) \<and>
     (rejected s \<noteq> [] \<longrightarrow> passes s = []) \<and>
     distinct (map ident (queue s)) \<and>
     (\<forall>f\<in>set (passes s). frame_ok (trace s) f) \<and>
     (\<not> isPerforming s \<longrightarrow> idle_ok (trace s)) \<and>
     prefix_ok (trace s)"

text \<open>The items that a list of events registers.\<close>

definition registered :: "event list \<Rightarrow> orchestration_item list" where
  "registered evs =
     concat (map (\<lambda>ev. case ev of Orchestrate i e opts \<Rightarrow> [mk_item i e opts] | _ \<Rightarrow> []) evs)"

text \<open>A step ends a pass when it adds observations and the last one is \<open>PassDone\<close>.\<close>

fun is_PassDone :: "pevent \<Rightarrow> bool" where
  "is_PassDone (PassDone sq res) = True"
| "is_PassDone _ = False"

definition ends_pass :: "state \<Rightarrow> state \<Rightarrow> bool" where
  "ends_pass s s' \<longleftrightarrow>
     trace s' \<noteq> [] \<and> trace s' \<noteq> trace s \<and> is_PassDone (last (trace s'))"

text \<open>All items of the store and of the suspended activations are in \<open>R\<close>.\<close>

definition confined :: "orchestration_item set \<Rightarrow> state \<Rightarrow> bool" where
  "confined R s \<longleftrightarrow> set (queue s) \<subseteq> R \<and> (\<forall>f\<in>set (passes s). set (sortedQueue f) \<subseteq> R)"





section \<open>Example inputs\<close>

text \<open>\<^verbatim>\<open>orchestrate(id, effect)\<close> with the default \<^verbatim>\<open>options = {}\<close>, and
  \<^verbatim>\<open>{ priority: p }\<close>.\<close>

definition no_options :: options where
  "no_options = \<lparr>opt_priority = None, opt_preDelay = None, opt_postDelay = None,
                  opt_timeout = None\<rparr>"

definition with_priority :: "int \<Rightarrow> options" where
  "with_priority p = no_options\<lparr>opt_priority := Some p\<rparr>"

text \<open>Register \<open>a\<close> (priority 1), \<open>b\<close> (3), \<open>c\<close> (2), execute, and let the three
  effects settle.\<close>

definition priority_run :: "event list" where
  "priority_run =
     [Orchestrate ''a'' (Returns (Str ''A'')) (with_priority 1),
      Orchestrate ''b'' (Returns (Str ''B'')) (with_priority 3),
      Orchestrate ''c'' (Returns (Str ''C'')) (with_priority 2),
      Execute, Resume 0, Resume 0, Resume 0]"



text \<open>An effect that throws \<^verbatim>\<open>Object.create(null)\<close>, ahead of one that succeeds.\<close>

definition unconvertible_run :: "event list" where
  "unconvertible_run =
     [Orchestrate ''bad'' (Throws Unconvertible) (with_priority 1),
      Orchestrate ''good'' (Returns (Str ''ok'')) no_options,
      Execute, Resume 0]"

text \<open>One item; a second \<^verbatim>\<open>execute()\<close> arrives while the pass is suspended.\<close>

definition drained_run :: "event list" where
  "drained_run =
     [Orchestrate ''a'' (Returns (Str ''A'')) no_options, Execute, Execute, Resume 0]"

text \<open>An item registered under the id \<^verbatim>\<open>__proto__\<close> and an ordinary one.\<close>

definition proto_run :: "event list" where
  "proto_run =
     [Orchestrate ''__proto__'' (Returns (Str ''P'')) (with_priority 1),
      Orchestrate ''a'' (Returns (Str ''A'')) no_options,
      Execute, Resume 0, Resume 0]"

text \<open>A pass is admitted and is suspended at its first effect.\<close>

definition overlap_run :: "event list" where
  "overlap_run = [Orchestrate ''a'' (Returns (Str ''A'')) no_options, Execute]"

text \<open>The id \<open>x\<close> is registered with priority 1 and again with priority 5.\<close>

definition reregister_run :: "event list" where
  "reregister_run =
     [Orchestrate ''x'' (Returns (Str ''old'')) (with_priority 1),
      Orchestrate ''x'' (Returns (Str ''new'')) (with_priority 5),
      Execute, Resume 0]"

text \<open>Two items of equal priority.\<close>

definition tie_run :: "event list" where
  "tie_run =
     [Orchestrate ''a'' (Returns (Str ''A1'')) no_options,
      Orchestrate ''b'' (Returns (Str ''B'')) no_options]"

text \<open>One item; two more \<^verbatim>\<open>execute()\<close> calls arrive while the pass is suspended.\<close>

definition starved_run :: "event list" where
  "starved_run =
     [Orchestrate ''a'' (Returns (Str ''A'')) no_options, Execute, Execute, Execute, Resume 0]"

section \<open>The run order is a stable descending sort\<close>

lemma insert_by_mset: "mset (insert_by c x ys) = add_mset x (mset ys)"
  by (induction ys) simp_all

lemma sort_by_mset: "mset (sort_by c xs) = mset xs"
  by (induction xs) (simp_all add: insert_by_mset)

lemma sort_by_set: "set (sort_by c xs) = set xs"
  using sort_by_mset [of c xs] by (metis set_mset_mset)

lemma sort_by_length: "length (sort_by c xs) = length xs"
  using sort_by_mset [of c xs] by (metis size_mset)

lemma sort_by_Nil_iff: "sort_by c xs = [] \<longleftrightarrow> xs = []"
  using sort_by_length [of c xs] by (metis length_0_conv)

lemma sort_by_distinct_ids:
  "distinct (map ident (sort_by c q)) = distinct (map ident q)"
proof -
  have "mset (map ident (sort_by c q)) = mset (map ident q)"
    by (simp add: sort_by_mset)
  then show ?thesis by (rule mset_eq_imp_distinct_iff)
qed

lemma insert_by_set: "set (insert_by c x ys) = insert x (set ys)"
  using insert_by_mset [of c x ys] by (metis set_mset_mset set_mset_add_mset_insert)

lemma insert_by_descending:
  "descending ys \<Longrightarrow> descending (insert_by compare_priority x ys)"
  unfolding descending_def
  by (induction ys) (auto simp: insert_by_set compare_priority_def)

lemma sort_by_descending: "descending (sort_by compare_priority q)"
proof (induction q)
  case Nil
  show ?case by (simp add: descending_def)
next
  case (Cons x q)
  then show ?case by (simp add: insert_by_descending)
qed

lemma insert_by_filter_priority:
  "filter (\<lambda>y. priority y = p) (insert_by compare_priority x ys) =
     (if priority x = p then x # filter (\<lambda>y. priority y = p) ys
      else filter (\<lambda>y. priority y = p) ys)"
  by (induction ys) (auto simp: compare_priority_def)

lemma sort_by_stable:
  "filter (\<lambda>y. priority y = p) (sort_by compare_priority q) = filter (\<lambda>y. priority y = p) q"
  by (induction q) (simp_all add: insert_by_filter_priority)

section \<open>Registration keeps one item per id\<close>

lemma find_first_id:
  "find (\<lambda>x. ident x = i) q = Some f \<Longrightarrow> f \<in> set q \<and> ident f = i"
  by (auto simp: find_Some_iff)

lemma remove1_ids:
  "distinct (map ident q) \<Longrightarrow> f \<in> set q \<Longrightarrow>
     remove1 f q = filter (\<lambda>x. ident x \<noteq> ident f) q"
proof (induction q)
  case Nil
  then show ?case by simp
next
  case (Cons x q)
  show ?case
  proof (cases "x = f")
    case True
    have "\<forall>y\<in>set q. ident y \<noteq> ident f"
      using Cons.prems(1) True by (auto simp: image_iff)
    then have "filter (\<lambda>x. ident x \<noteq> ident f) q = q"
      by (simp add: filter_id_conv)
    with True show ?thesis by simp
  next
    case False
    then have "f \<in> set q" using Cons.prems(2) by simp
    moreover have "ident x \<noteq> ident f"
      using Cons.prems(1) \<open>f \<in> set q\<close> by auto
    ultimately show ?thesis using Cons False by auto
  qed
qed

lemma orchestrate_queue:
  assumes "distinct (map ident (queue s))"
  shows "queue (orchestrate i e opts s) =
           filter (\<lambda>x. ident x \<noteq> i) (queue s) @ [mk_item i e opts]"
proof (cases "find (\<lambda>x. ident x = i) (queue s)")
  case None
  then have no: "\<forall>x\<in>set (queue s). ident x \<noteq> i"
    by (auto simp: find_None_iff)
  then have "mk_item i e opts \<notin> set (queue s)"
    by (auto simp: mk_item_def)
  moreover have "filter (\<lambda>x. ident x \<noteq> i) (queue s) = queue s"
    using no by (simp add: filter_id_conv)
  ultimately show ?thesis using None
    by (simp add: orchestrate_def Let_def remove1_idem)
next
  case (Some f)
  from find_first_id [OF Some] have "f \<in> set (queue s)" "ident f = i" by simp_all
  with remove1_ids [OF assms, of f] Some show ?thesis
    by (simp add: orchestrate_def Let_def)
qed

lemma orchestrate_distinct:
  "distinct (map ident (queue s)) \<Longrightarrow> distinct (map ident (queue (orchestrate i e opts s)))"
  by (auto simp: orchestrate_queue distinct_map_filter mk_item_def)

lemma cancel_queue:
  assumes "distinct (map ident (queue s))"
  shows "queue (cancel i s) = filter (\<lambda>x. ident x \<noteq> i) (queue s)"
proof (cases "find (\<lambda>x. ident x = i) (queue s)")
  case None
  then have "\<forall>x\<in>set (queue s). ident x \<noteq> i"
    by (auto simp: find_None_iff)
  then have "filter (\<lambda>x. ident x \<noteq> i) (queue s) = queue s"
    by (simp add: filter_id_conv)
  with None show ?thesis by (simp add: cancel_def)
next
  case (Some f)
  from find_first_id [OF Some] have "f \<in> set (queue s)" "ident f = i" by simp_all
  with remove1_ids [OF assms, of f] Some show ?thesis
    by (simp add: cancel_def)
qed

lemma cancel_distinct:
  "distinct (map ident (queue s)) \<Longrightarrow> distinct (map ident (queue (cancel i s)))"
  by (simp add: cancel_queue distinct_map_filter)

section \<open>The equations of \<open>execute\<close> and \<open>loop\<close> by case\<close>

text \<open>
  \<open>loop_done\<close> shows what the drain at the end of a pass amounts to: the nested
  \<^verbatim>\<open>execute()\<close> of the continuation runs right after \<^verbatim>\<open>queue.clear()\<close>, finds the
  store empty and returns the empty object without looking at the deferred list.
\<close>

lemma current_pass_snoc:
  "current_pass (tr @ [e]) = (case e of Started q \<Rightarrow> [e] | _ \<Rightarrow> current_pass tr @ [e])"
  by (cases e) (simp_all add: current_pass_def)

lemma execute_busy:
  "isPerforming s \<Longrightarrow> execute ds ws s = s\<lparr>executionQueue := executionQueue s @ [ds @ ws]\<rparr>"
  by (simp add: execute.simps)

lemma execute_empty:
  "\<not> isPerforming s \<Longrightarrow> queue s = [] \<Longrightarrow> execute ds ws s = resolve (ds @ ws) [] s"
  by (simp add: execute.simps)

lemma execute_admit:
  "\<not> isPerforming s \<Longrightarrow> queue s \<noteq> [] \<Longrightarrow>
     execute ds ws s = loop ds ws [] (sort_by compare_priority (queue s)) 0
         (s\<lparr>isPerforming := True,
            trace := trace s @ [Started (queue s)]\<rparr>)"
  by (simp add: execute.simps)

lemma loop_next:
  "i < length sq \<Longrightarrow>
     loop ds ws res sq i s =
       (let fr = \<lparr>deferred = ds, owners = ws, results = res, sortedQueue = sq, idx = Suc i,
                   item = sq ! i, at = AwaitEffect\<rparr>
        in if preDelay (sq ! i) \<noteq> 0
           then s\<lparr>trace := trace s @ [Sleep (ident (sq ! i)) (preDelay (sq ! i))],
                  passes := passes s @ [fr\<lparr>at := AwaitPreDelay\<rparr>]\<rparr>
           else invoke fr s)"
  by (simp add: loop.simps Let_def)

lemma loop_done:
  "\<not> i < length sq \<Longrightarrow>
     loop ds ws res sq i s =
       (case executionQueue s of
          [] \<Rightarrow> resolve (ds @ ws) res
                 (s\<lparr>queue := [], isPerforming := False, trace := trace s @ [PassDone sq res]\<rparr>)
        | k # ks \<Rightarrow> resolve (k @ ds @ ws) []
                 (s\<lparr>queue := [], isPerforming := False, trace := trace s @ [PassDone sq res],
                    executionQueue := ks\<rparr>))"
  by (simp add: loop.simps Let_def execute_empty split: list.splits)

section \<open>The invariant holds in every reachable state\<close>

lemma record_inr: "record_outcome e = Inr en \<Longrightarrow> entry_of e = en"
  by (simp add: entry_of_def)

lemma expected_results_snoc:
  "expected_results (xs @ [x]) =
     expected_results xs @
       (if ident x = ''__proto__'' then [] else [(ident x, entry_of (effect x))])"
  by (simp add: expected_results_def)

lemma update_fresh_key:
  "k \<notin> fst ` set al \<Longrightarrow> AList.update k v al = al @ [(k, v)]"
  by (induction al) auto

lemma record_next:
  assumes d: "distinct (map ident sq)" and i: "i < length sq"
  shows "assign (ident (sq ! i)) (entry_of (effect (sq ! i)))
            (expected_results (take i sq)) = expected_results (take (Suc i) sq)"
proof -
  have "ident (sq ! i) \<notin> ident ` set (take i sq)"
  proof
    assume "ident (sq ! i) \<in> ident ` set (take i sq)"
    then obtain j where j: "j < i" "ident (sq ! j) = ident (sq ! i)"
      using i by (auto simp: in_set_conv_nth)
    then have "map ident sq ! j = map ident sq ! i" using i by simp
    with d j i nth_eq_iff_index_eq [of "map ident sq" j i] show False
      by simp
  qed
  then have "ident (sq ! i) \<notin> fst ` set (expected_results (take i sq))"
    by (auto simp: expected_results_def image_image)
  then show ?thesis
    by (simp add: assign_def update_fresh_key take_Suc_conv_app_nth [OF i]
          expected_results_snoc)
qed

lemma invoked_append: "invoked (xs @ ys) = invoked xs @ invoked ys"
  by (simp add: invoked_def)

lemma invoked_item_events: "invoked (item_events it) = [ident it]"
  by (simp add: invoked_def item_events_def pre_events_def post_events_def)

lemma invoked_concat_events: "invoked (concat (map item_events sq)) = map ident sq"
  by (induction sq) (simp_all add: invoked_append invoked_item_events, simp add: invoked_def)

lemma invoked_progress:
  "invoked (progress p it) = (if p = AwaitPreDelay then [] else [ident it])"
  by (cases p) (simp_all add: invoked_def pre_events_def invoked_item_events [unfolded invoked_def])

lemma invoked_pass_record:
  "invoked (pass_record q) = map ident (sort_by compare_priority q)"
proof -
  have "pass_record q = [Started q] @ concat (map item_events (sort_by compare_priority q))
          @ [PassDone (sort_by compare_priority q) (expected_results (sort_by compare_priority q))]"
    by (simp add: pass_record_def Let_def)
  then show ?thesis
    by (simp only: invoked_append invoked_concat_events) (simp add: invoked_def)
qed

lemma admitted_pass_record: "current_pass tr = pass_record q \<Longrightarrow> admitted tr = q"
  by (simp add: admitted_def pass_record_def Let_def)

lemma idle_prefix:
  assumes "idle_ok tr"
  shows "prefix_ok tr"
proof (cases "tr = []")
  case True
  then show ?thesis by (simp add: prefix_ok_def current_pass_def invoked_def)
next
  case False
  with assms obtain q where q: "current_pass tr = pass_record q"
    by (auto simp: idle_ok_def)
  from admitted_pass_record [OF q] q show ?thesis
    by (simp add: prefix_ok_def invoked_pass_record)
qed

lemma frame_prefix:
  assumes "frame_ok tr f"
  shows "prefix_ok tr"
proof -
  let ?sq = "sortedQueue f"
  from assms obtain q where sq: "?sq = sort_by compare_priority q"
    and ix: "0 < idx f" "idx f \<le> length ?sq" and it: "item f = ?sq ! (idx f - 1)"
    and tr: "current_pass tr =
       Started q # concat (map item_events (take (idx f - 1) ?sq)) @ progress (at f) (item f)"
    unfolding frame_ok_def by blast
  have a: "admitted tr = q" using tr by (simp add: admitted_def)
  have lt: "idx f - 1 < length ?sq" using ix by simp
  have "current_pass tr = [Started q] @ concat (map item_events (take (idx f - 1) ?sq))
          @ progress (at f) (item f)" using tr by simp
  then have orchestrator_inv: "invoked (current_pass tr) =
      map ident (take (idx f - 1) ?sq) @ (if at f = AwaitPreDelay then [] else [ident (item f)])"
    by (simp only: invoked_append invoked_concat_events invoked_progress)
       (simp add: invoked_def)
  show ?thesis
  proof (cases "at f = AwaitPreDelay")
    case True
    with orchestrator_inv have "invoked (current_pass tr) = take (idx f - 1) (map ident ?sq)"
      by (simp add: take_map)
    moreover from this lt have "length (invoked (current_pass tr)) = idx f - 1" by simp
    ultimately show ?thesis using a sq by (simp add: prefix_ok_def)
  next
    case False
    have "take (idx f) ?sq = take (idx f - 1) ?sq @ [item f]"
      using take_Suc_conv_app_nth [OF lt] ix it by simp
    with orchestrator_inv False have "invoked (current_pass tr) = take (idx f) (map ident ?sq)"
      by (simp add: take_map)
    moreover from this ix have "length (invoked (current_pass tr)) = idx f" by simp
    ultimately show ?thesis using a sq by (simp add: prefix_ok_def)
  qed
qed

lemma loop_inv:
  assumes idle: "passes s = []" and busy: "isPerforming s" and nr: "rejected s = []"
    and dq: "distinct (map ident (queue s))"
    and q: "distinct (map ident q)" "q \<noteq> []" "sq = sort_by compare_priority q"
    and ws: "ws \<noteq> []"
    and i: "i \<le> length sq"
    and res: "res = expected_results (take i sq)"
    and tr: "current_pass (trace s) = Started q # concat (map item_events (take i sq))"
  shows "orchestrator_inv (loop ds ws res sq i s)"
proof (cases "i < length sq")
  case True
  let ?it = "sq ! i"
  show ?thesis
  proof (cases "preDelay ?it \<noteq> 0")
    case True
    let ?tr = "trace s @ [Sleep (ident ?it) (preDelay ?it)]"
    let ?fr = "\<lparr>deferred = ds, owners = ws, results = res, sortedQueue = sq, idx = Suc i,
                item = ?it, at = AwaitPreDelay\<rparr>"
    have f: "frame_ok ?tr ?fr"
      unfolding frame_ok_def using q \<open>i < length sq\<close> res tr True ws
      by (intro exI [of _ q]) (simp add: current_pass_snoc pre_events_def)
    from frame_prefix [OF f] f show ?thesis
      using \<open>i < length sq\<close> True idle busy dq nr
      by (simp add: loop_next orchestrator_inv_def)
  next
    case False
    let ?tr = "trace s @ [Invoked (ident ?it)]"
    let ?fr = "\<lparr>deferred = ds, owners = ws, results = res, sortedQueue = sq, idx = Suc i,
                item = ?it, at = AwaitEffect\<rparr>"
    have f: "frame_ok ?tr ?fr"
      unfolding frame_ok_def using q \<open>i < length sq\<close> res tr False ws
      by (intro exI [of _ q]) (simp add: current_pass_snoc pre_events_def)
    from frame_prefix [OF f] f show ?thesis
      using \<open>i < length sq\<close> False idle busy dq nr
      by (simp add: loop_next orchestrator_inv_def invoke_def)
  qed
next
  case False
  with i have all: "take i sq = sq" by simp
  let ?tr = "trace s @ [PassDone sq res]"
  have cp: "current_pass ?tr = pass_record q"
    using tr q all res by (simp add: current_pass_snoc pass_record_def Let_def)
  have io: "idle_ok ?tr"
    unfolding idle_ok_def using cp q by blast
  from idle_prefix [OF io] io show ?thesis
    using False idle nr
    by (simp add: loop_done orchestrator_inv_def resolve_def split: list.splits)
qed

lemma concat_events_take_Suc:
  "i < length sq \<Longrightarrow>
     concat (map item_events (take (Suc i) sq)) =
       concat (map item_events (take i sq)) @ item_events (sq ! i)"
  by (simp add: take_Suc_conv_app_nth)

lemma current_pass_two:
  "current_pass (tr @ [Recorded i e, Sleep j d]) = current_pass tr @ [Recorded i e, Sleep j d]"
proof -
  have "current_pass ((tr @ [Recorded i e]) @ [Sleep j d]) =
          current_pass (tr @ [Recorded i e]) @ [Sleep j d]"
    by (simp only: current_pass_snoc pevent.case)
  then show ?thesis by (simp add: current_pass_snoc)
qed

lemma resume_inv:
  assumes orchestrator_inv: "orchestrator_inv s" and one: "passes s = [f]"
  shows "orchestrator_inv (resume f (s\<lparr>passes := []\<rparr>))"
proof -
  from orchestrator_inv one have busy: "isPerforming s" and dq: "distinct (map ident (queue s))"
    and nr: "rejected s = []" and fok: "frame_ok (trace s) f" and po: "prefix_ok (trace s)"
    by (auto simp: orchestrator_inv_def)
  let ?sq = "sortedQueue f"
  let ?it = "item f"
  from fok obtain q where q: "distinct (map ident q)" "?sq = sort_by compare_priority q"
    and ws: "owners f \<noteq> []"
    and ix: "0 < idx f" "idx f \<le> length ?sq" and it: "?it = ?sq ! (idx f - 1)"
    and pre: "at f = AwaitPreDelay \<longrightarrow> preDelay ?it \<noteq> 0"
    and post: "at f = AwaitPostDelay \<longrightarrow> postDelay ?it \<noteq> 0"
    and res: "results f = expected_results
                (take (if at f = AwaitPostDelay then idx f else idx f - 1) ?sq)"
    and tr: "current_pass (trace s) =
               Started q # concat (map item_events (take (idx f - 1) ?sq)) @ progress (at f) ?it"
    unfolding frame_ok_def by blast
  from ix have lt: "idx f - 1 < length ?sq" and suc: "Suc (idx f - 1) = idx f" by simp_all
  have qne: "q \<noteq> []"
    using q(2) ix by (auto simp: sort_by_Nil_iff)
  have dsq: "distinct (map ident ?sq)"
    using q by (simp add: sort_by_distinct_ids)
  have whole: "concat (map item_events (take (idx f) ?sq)) =
                 concat (map item_events (take (idx f - 1) ?sq)) @ item_events ?it"
    using concat_events_take_Suc [OF lt] suc it by simp
  let ?s0 = "s\<lparr>passes := []\<rparr>"
  show ?thesis
  proof (cases "at f")
    case AwaitPreDelay
    let ?f' = "f\<lparr>at := AwaitEffect\<rparr>"
    have f': "frame_ok (trace s @ [Invoked (ident ?it)]) ?f'"
      unfolding frame_ok_def using q ix it res tr AwaitPreDelay ws
      by (intro exI [of _ q]) (simp add: current_pass_snoc)
    from frame_prefix [OF f'] f' show ?thesis
      using AwaitPreDelay busy dq nr
      by (simp add: resume_def invoke_def orchestrator_inv_def)
  next
    case AwaitEffect
    show ?thesis
    proof (cases "record_outcome (effect ?it)")
      case (Inl x)
      then have r: "resume f ?s0 = ?s0\<lparr>rejected := rejected ?s0 @ owners f\<rparr>"
        using AwaitEffect by (simp add: resume_def Let_def)
      show ?thesis unfolding r using busy dq nr ws po by (simp add: orchestrator_inv_def)
    next
      case (Inr en)
      then have eo: "entry_of (effect ?it) = en" by (rule record_inr)
      let ?res = "assign (ident ?it) en (results f)"
      have res': "?res = expected_results (take (idx f) ?sq)"
        using record_next [OF dsq lt] res AwaitEffect it suc eo by simp
      show ?thesis
      proof (cases "postDelay ?it \<noteq> 0")
        case True
        let ?f' = "f\<lparr>results := ?res, at := AwaitPostDelay\<rparr>"
        have f': "frame_ok (trace s @ [Recorded (ident ?it) en, Sleep (ident ?it) (postDelay ?it)])
                ?f'"
          unfolding frame_ok_def using q ix it res' tr AwaitEffect True ws eo
          by (intro exI [of _ q])
             (simp add: current_pass_two item_events_def post_events_def)
        from frame_prefix [OF f'] f' show ?thesis
          using AwaitEffect True busy dq nr Inr
          by (simp add: resume_def orchestrator_inv_def Let_def)
      next
        case False
        let ?s1 = "?s0\<lparr>trace := trace ?s0 @ [Recorded (ident ?it) en]\<rparr>"
        have "current_pass (trace ?s1) =
                Started q # concat (map item_events (take (idx f) ?sq))"
          using tr AwaitEffect False whole eo
          by (simp add: current_pass_snoc item_events_def post_events_def)
        then have "orchestrator_inv (loop (deferred f) (owners f) ?res ?sq (idx f) ?s1)"
          using busy dq q qne ix res' nr ws
          by (intro loop_inv [where q = q]) simp_all
        then show ?thesis
          using AwaitEffect False Inr by (simp add: resume_def Let_def)
      qed
    qed
  next
    case AwaitPostDelay
    have "current_pass (trace ?s0) = Started q # concat (map item_events (take (idx f) ?sq))"
      using tr AwaitPostDelay whole by simp
    then have "orchestrator_inv (loop (deferred f) (owners f) (results f) ?sq (idx f) ?s0)"
      using busy dq q qne ix res AwaitPostDelay nr ws
      by (intro loop_inv [where q = q]) simp_all
    then show ?thesis
      using AwaitPostDelay by (simp add: resume_def)
  qed
qed

lemma execute_inv:
  assumes "orchestrator_inv s" and "ws \<noteq> []"
  shows "orchestrator_inv (execute ds ws s)"
proof (cases "isPerforming s")
  case True
  with assms show ?thesis by (simp add: execute_busy orchestrator_inv_def)
next
  case False
  show ?thesis
  proof (cases "queue s = []")
    case True
    with False assms show ?thesis by (simp add: execute_empty resolve_def orchestrator_inv_def)
  next
    case nonempty: False
    let ?s1 = "s\<lparr>isPerforming := True, trace := trace s @ [Started (queue s)]\<rparr>"
    from assms False have idle: "passes s = []" and dq: "distinct (map ident (queue s))"
      and nr: "rejected s = []"
      by (simp_all add: orchestrator_inv_def)
    have "orchestrator_inv (loop ds ws [] (sort_by compare_priority (queue s)) 0 ?s1)"
      using idle dq nonempty nr assms(2)
      by (intro loop_inv [where q = "queue s"])
         (simp_all add: current_pass_snoc expected_results_def)
    with False nonempty show ?thesis by (simp add: execute_admit)
  qed
qed

lemma inv_calls: "orchestrator_inv (s\<lparr>calls := n\<rparr>) = orchestrator_inv s"
  by (simp add: orchestrator_inv_def)

lemma step_inv:
  assumes "orchestrator_inv s"
  shows "orchestrator_inv (step e s)"
proof (cases e)
  case (Orchestrate i eff opts)
  have same: "orchestrate i eff opts s = s\<lparr>queue := queue (orchestrate i eff opts s)\<rparr>"
    by (simp add: orchestrate_def Let_def)
  from assms have "distinct (map ident (queue (orchestrate i eff opts s)))"
    by (simp add: orchestrator_inv_def orchestrate_distinct)
  with assms have "orchestrator_inv (s\<lparr>queue := queue (orchestrate i eff opts s)\<rparr>)"
    by (simp add: orchestrator_inv_def)
  with same Orchestrate show ?thesis by simp
next
  case (Cancel i)
  have same: "cancel i s = s\<lparr>queue := queue (cancel i s)\<rparr>"
    by (simp add: cancel_def split: option.splits)
  from assms have "distinct (map ident (queue (cancel i s)))"
    by (simp add: orchestrator_inv_def cancel_distinct)
  with assms have "orchestrator_inv (s\<lparr>queue := queue (cancel i s)\<rparr>)"
    by (simp add: orchestrator_inv_def)
  with same Cancel show ?thesis by simp
next
  case Execute
  with assms show ?thesis by (simp add: execute_inv inv_calls)
next
  case (Resume n)
  show ?thesis
  proof (cases "n < length (passes s)")
    case True
    with assms have "n = 0" and "length (passes s) = 1" by (simp_all add: orchestrator_inv_def)
    then obtain f where one: "passes s = [f]"
      by (cases "passes s") simp_all
    with resume_inv [OF assms one] Resume \<open>n = 0\<close> show ?thesis by simp
  next
    case False
    with assms Resume show ?thesis by simp
  qed
qed

lemma run_snoc: "run (evs @ [e]) s = step e (run evs s)"
  by (simp add: run_def)

lemma run_Cons: "run (e # evs) s = run evs (step e s)"
  by (simp add: run_def)

lemma init_inv: "orchestrator_inv init"
  by (simp add: orchestrator_inv_def init_def idle_ok_def prefix_ok_def current_pass_def invoked_def)

lemma run_inv: "orchestrator_inv (run evs init)"
proof (induction evs rule: rev_induct)
  case Nil
  show ?case by (simp add: run_def init_inv)
next
  case (snoc e evs)
  then show ?case by (simp add: run_snoc step_inv)
qed

lemma idle_record:
  assumes "\<not> isPerforming (run evs init)" and "trace (run evs init) \<noteq> []"
  shows "current_pass (trace (run evs init)) = pass_record (admitted (trace (run evs init)))"
    and "distinct (map ident (admitted (trace (run evs init))))"
    and "admitted (trace (run evs init)) \<noteq> []"
proof -
  from run_inv [of evs] assms obtain q
    where q: "distinct (map ident q)" "q \<noteq> []"
      "current_pass (trace (run evs init)) = pass_record q"
    by (auto simp: orchestrator_inv_def idle_ok_def)
  from admitted_pass_record [OF q(3)] q
  show "current_pass (trace (run evs init)) = pass_record (admitted (trace (run evs init)))"
    and "distinct (map ident (admitted (trace (run evs init))))"
    and "admitted (trace (run evs init)) \<noteq> []"
    by simp_all
qed

section \<open>The end of a pass clears the store\<close>

lemma loop_next_shape:
  assumes "i < length sq"
  shows "\<exists>fr e. loop ds ws res sq i s = s\<lparr>trace := trace s @ [e], passes := passes s @ [fr]\<rparr> \<and>
           \<not> is_PassDone e \<and> owners fr = ws \<and> sortedQueue fr = sq \<and> idx fr = Suc i \<and>
           (at fr = AwaitPreDelay \<or> at fr = AwaitEffect)"
proof (cases "preDelay (sq ! i) \<noteq> 0")
  case True
  with assms show ?thesis
    by (intro exI [of _ "\<lparr>deferred = ds, owners = ws, results = res, sortedQueue = sq,
            idx = Suc i, item = sq ! i, at = AwaitPreDelay\<rparr>"]
          exI [of _ "Sleep (ident (sq ! i)) (preDelay (sq ! i))"])
       (simp add: loop_next)
next
  case False
  with assms show ?thesis
    by (intro exI [of _ "\<lparr>deferred = ds, owners = ws, results = res, sortedQueue = sq,
            idx = Suc i, item = sq ! i, at = AwaitEffect\<rparr>"]
          exI [of _ "Invoked (ident (sq ! i))"])
       (simp add: loop_next invoke_def)
qed

lemma loop_done_shape:
  assumes "\<not> i < length sq"
  shows "\<exists>r ks. loop ds ws res sq i s =
           s\<lparr>queue := [], isPerforming := False, trace := trace s @ [PassDone sq res],
             executionQueue := ks, settled := settled s @ r\<rparr>"
proof (cases "executionQueue s")
  case Nil
  with assms show ?thesis
    by (intro exI [of _ "map (\<lambda>c. (c, res)) (ds @ ws)"] exI [of _ "[]"])
       (simp add: loop_done resolve_def)
next
  case (Cons k ks)
  with assms show ?thesis
    by (intro exI [of _ "map (\<lambda>c. (c, [])) (k @ ds @ ws)"] exI [of _ ks])
       (simp add: loop_done resolve_def)
qed

lemma loop_ends_pass:
  assumes "ends_pass s0 (loop ds ws res sq i s)"
  shows "queue (loop ds ws res sq i s) = [] \<and> \<not> isPerforming (loop ds ws res sq i s) \<and>
         passes (loop ds ws res sq i s) = passes s"
proof (cases "i < length sq")
  case True
  from loop_next_shape [OF True, of ds ws res s] obtain fr e
    where "loop ds ws res sq i s = s\<lparr>trace := trace s @ [e], passes := passes s @ [fr]\<rparr>"
      and "\<not> is_PassDone e" by blast
  with assms show ?thesis by (simp add: ends_pass_def)
next
  case False
  from loop_done_shape [OF False, of ds ws res s] obtain r ks
    where "loop ds ws res sq i s =
           s\<lparr>queue := [], isPerforming := False, trace := trace s @ [PassDone sq res],
             executionQueue := ks, settled := settled s @ r\<rparr>" by blast
  then show ?thesis by simp
qed

lemma step_ends_pass:
  assumes "ends_pass s (step e s)"
  shows "queue (step e s) = [] \<and> \<not> isPerforming (step e s)"
proof (cases e)
  case (Orchestrate i eff opts)
  with assms show ?thesis by (simp add: ends_pass_def orchestrate_def Let_def)
next
  case (Cancel i)
  with assms show ?thesis by (simp add: ends_pass_def cancel_def split: option.splits)
next
  case Execute
  let ?s = "s\<lparr>calls := Suc (calls s)\<rparr>"
  show ?thesis
  proof (cases "isPerforming s \<or> queue s = []")
    case True
    then have "trace (execute [] [calls s] ?s) = trace s"
      by (cases "isPerforming s") (simp_all add: execute_busy execute_empty resolve_def)
    with assms Execute show ?thesis
      by (simp add: ends_pass_def)
  next
    case False
    let ?S1 = "?s\<lparr>isPerforming := True, trace := trace ?s @ [Started (queue ?s)]\<rparr>"
    let ?sq = "sort_by compare_priority (queue s)"
    from False have ex: "step e s = loop [] [calls s] [] ?sq 0 ?S1"
      using Execute by (simp add: execute_admit)
    from False have "0 < length ?sq"
      by (simp add: sort_by_length)
    from loop_next_shape [OF this, of "[]" "[calls s]" "[]" ?S1] obtain fr ev
      where lp: "loop [] [calls s] [] ?sq 0 ?S1 =
                   ?S1\<lparr>trace := trace ?S1 @ [ev], passes := passes ?S1 @ [fr]\<rparr>"
        and nd: "\<not> is_PassDone ev"
      by blast
    have "last (trace (step e s)) = ev"
      unfolding ex lp by simp
    with assms nd show ?thesis by (simp add: ends_pass_def)
  qed
next
  case (Resume n)
  show ?thesis
  proof (cases "n < length (passes s)")
    case False
    with assms Resume show ?thesis by (simp add: ends_pass_def)
  next
    case True
    let ?f = "passes s ! n"
    let ?s0 = "s\<lparr>passes := take n (passes s) @ drop (Suc n) (passes s)\<rparr>"
    from True Resume have st: "step e s = resume ?f ?s0" by simp
    show ?thesis
    proof (cases "at ?f")
      case AwaitPreDelay
      with assms st show ?thesis by (simp add: resume_def invoke_def ends_pass_def)
    next
      case AwaitEffect
      show ?thesis
      proof (cases "record_outcome (effect (item ?f))")
        case (Inl x)
        with assms st AwaitEffect show ?thesis
          by (simp add: resume_def Let_def ends_pass_def)
      next
        case (Inr en)
        show ?thesis
        proof (cases "postDelay (item ?f) \<noteq> 0")
          case True
          with assms st AwaitEffect Inr show ?thesis
            by (simp add: resume_def Let_def ends_pass_def)
        next
          case False
          with st AwaitEffect Inr assms loop_ends_pass show ?thesis
            by (simp add: resume_def Let_def)
        qed
      qed
    next
      case AwaitPostDelay
      with st assms loop_ends_pass show ?thesis by (simp add: resume_def)
    qed
  qed
qed

lemma last_current_pass:
  "tr \<noteq> [] \<Longrightarrow> current_pass tr \<noteq> [] \<and> last (current_pass tr) = last tr"
proof (induction tr rule: rev_induct)
  case Nil
  then show ?case by simp
next
  case (snoc e tr)
  show ?case by (cases e) (simp_all add: current_pass_snoc)
qed

lemma current_pass_Nil: "current_pass [] = []"
  by (simp add: current_pass_def)

lemma progress_last:
  assumes "at f = AwaitPreDelay \<longrightarrow> preDelay (item f) \<noteq> 0"
    and "at f = AwaitPostDelay \<longrightarrow> postDelay (item f) \<noteq> 0"
  shows "progress (at f) (item f) \<noteq> [] \<and>
         last (progress (at f) (item f)) =
           (case at f of
              AwaitPreDelay \<Rightarrow> Sleep (ident (item f)) (preDelay (item f))
            | AwaitEffect \<Rightarrow> Invoked (ident (item f))
            | AwaitPostDelay \<Rightarrow> Sleep (ident (item f)) (postDelay (item f)))"
  using assms
  by (cases "at f") (simp_all add: pre_events_def item_events_def post_events_def)

lemma frame_last:
  assumes "frame_ok tr f"
  shows "tr \<noteq> [] \<and>
         last tr =
           (case at f of
              AwaitPreDelay \<Rightarrow> Sleep (ident (item f)) (preDelay (item f))
            | AwaitEffect \<Rightarrow> Invoked (ident (item f))
            | AwaitPostDelay \<Rightarrow> Sleep (ident (item f)) (postDelay (item f)))"
proof -
  from assms obtain q where
    pre: "at f = AwaitPreDelay \<longrightarrow> preDelay (item f) \<noteq> 0"
    and post: "at f = AwaitPostDelay \<longrightarrow> postDelay (item f) \<noteq> 0"
    and tr: "current_pass tr =
          Started q # concat (map item_events (take (idx f - 1) (sortedQueue f)))
            @ progress (at f) (item f)"
    unfolding frame_ok_def by blast
  from tr have ne: "tr \<noteq> []" by (auto simp: current_pass_Nil)
  from progress_last [OF pre post] tr
  have "last (current_pass tr) =
           (case at f of
              AwaitPreDelay \<Rightarrow> Sleep (ident (item f)) (preDelay (item f))
            | AwaitEffect \<Rightarrow> Invoked (ident (item f))
            | AwaitPostDelay \<Rightarrow> Sleep (ident (item f)) (postDelay (item f)))"
    by simp
  with last_current_pass [OF ne] ne show ?thesis by simp
qed

lemma ends_pass_idle:
  assumes "orchestrator_inv s" and "ends_pass s (step e s)"
  shows "passes (step e s) = []"
proof (rule ccontr)
  let ?s = "step e s"
  assume "passes ?s \<noteq> []"
  then obtain f where "f \<in> set (passes ?s)" by (cases "passes ?s") auto
  moreover have "orchestrator_inv ?s" using assms(1) by (rule step_inv)
  ultimately have "frame_ok (trace ?s) f" by (simp add: orchestrator_inv_def)
  from frame_last [OF this] assms(2) show False
    by (cases "at f") (simp_all add: ends_pass_def)
qed

section \<open>Later passes work on items registered later\<close>

lemma registered_snoc: "registered (evs @ [e]) = registered evs @ registered [e]"
  by (simp add: registered_def)

lemma loop_confined:
  assumes "confined R s" and "set sq \<subseteq> R"
  shows "confined R (loop ds ws res sq i s)"
proof (cases "i < length sq")
  case True
  from loop_next_shape [OF True, of ds ws res s] obtain fr e
    where "loop ds ws res sq i s = s\<lparr>trace := trace s @ [e], passes := passes s @ [fr]\<rparr>"
      and "sortedQueue fr = sq" by blast
  with assms show ?thesis by (simp add: confined_def)
next
  case False
  from loop_done_shape [OF False, of ds ws res s] obtain r ks
    where "loop ds ws res sq i s =
           s\<lparr>queue := [], isPerforming := False, trace := trace s @ [PassDone sq res],
             executionQueue := ks, settled := settled s @ r\<rparr>" by blast
  with assms show ?thesis by (simp add: confined_def)
qed

lemma step_confined:
  assumes "confined R s"
  shows "confined (R \<union> set (registered [e])) (step e s)"
proof (cases e)
  case (Orchestrate i eff opts)
  have "set (queue (orchestrate i eff opts s)) \<subseteq> set (queue s) \<union> {mk_item i eff opts}"
    using set_remove1_subset by (fastforce simp: orchestrate_def Let_def)
  moreover have "passes (orchestrate i eff opts s) = passes s"
    by (simp add: orchestrate_def Let_def)
  ultimately show ?thesis using assms Orchestrate
    by (auto simp: confined_def registered_def)
next
  case (Cancel i)
  have "set (queue (cancel i s)) \<subseteq> set (queue s)"
    using set_remove1_subset by (fastforce simp: cancel_def split: option.splits)
  moreover have "passes (cancel i s) = passes s"
    by (simp add: cancel_def split: option.splits)
  ultimately show ?thesis using assms Cancel
    by (auto simp: confined_def registered_def)
next
  case Execute
  let ?s = "s\<lparr>calls := Suc (calls s)\<rparr>"
  have c: "confined R ?s" using assms by (simp add: confined_def)
  have "confined R (execute [] [calls s] ?s)"
  proof (cases "isPerforming s")
    case True
    with c show ?thesis by (simp add: execute_busy confined_def)
  next
    case False
    show ?thesis
    proof (cases "queue s = []")
      case True
      with False c show ?thesis by (simp add: execute_empty resolve_def confined_def)
    next
      case nonempty: False
      have "confined R (?s\<lparr>isPerforming := True, trace := trace ?s @ [Started (queue ?s)]\<rparr>)"
        using c by (simp add: confined_def)
      moreover have "set (sort_by compare_priority (queue ?s)) \<subseteq> R"
        using c by (simp add: sort_by_set confined_def)
      ultimately show ?thesis
        using False nonempty by (simp add: execute_admit loop_confined)
    qed
  qed
  with Execute show ?thesis by (simp add: registered_def)
next
  case (Resume n)
  have "confined R (step (Resume n) s)"
  proof (cases "n < length (passes s)")
    case False
    with assms show ?thesis by simp
  next
    case True
    let ?f = "passes s ! n"
    let ?s0 = "s\<lparr>passes := take n (passes s) @ drop (Suc n) (passes s)\<rparr>"
    from True have fin: "?f \<in> set (passes s)" by simp
    with assms have fsq: "set (sortedQueue ?f) \<subseteq> R" by (simp add: confined_def)
    have "set (take n (passes s) @ drop (Suc n) (passes s)) \<subseteq> set (passes s)"
      using set_take_subset set_drop_subset by fastforce
    with assms have c0: "confined R ?s0" by (auto simp: confined_def)
    have "confined R (resume ?f ?s0)"
    proof (cases "at ?f")
      case AwaitPreDelay
      with c0 fsq show ?thesis by (simp add: resume_def invoke_def confined_def)
    next
      case AwaitEffect
      show ?thesis
      proof (cases "record_outcome (effect (item ?f))")
        case (Inl x)
        with AwaitEffect c0 show ?thesis by (simp add: resume_def Let_def confined_def)
      next
        case (Inr en)
        show ?thesis
        proof (cases "postDelay (item ?f) \<noteq> 0")
          case True
          with AwaitEffect Inr c0 fsq show ?thesis
            by (simp add: resume_def Let_def confined_def)
        next
          case False
          have "confined R (?s0\<lparr>trace := trace ?s0 @ [Recorded (ident (item ?f)) en]\<rparr>)"
            using c0 by (simp add: confined_def)
          from loop_confined [OF this fsq] AwaitEffect Inr False show ?thesis
            by (simp add: resume_def Let_def)
        qed
      qed
    next
      case AwaitPostDelay
      with loop_confined [OF c0 fsq] show ?thesis by (simp add: resume_def)
    qed
    with True show ?thesis by simp
  qed
  with Resume show ?thesis by (simp add: registered_def)
qed

lemma run_confined:
  assumes "queue s = []" and "passes s = []"
  shows "confined (set (registered evs)) (run evs s)"
proof (induction evs rule: rev_induct)
  case Nil
  with assms show ?case by (simp add: run_def confined_def)
next
  case (snoc e evs)
  from step_confined [OF snoc.IH, of e] show ?case
    by (simp add: run_snoc registered_snoc)
qed

section \<open>Every step keeps the ids of the store distinct\<close>

lemma loop_queue:
  "queue (loop ds ws res sq i s) = queue s \<or> queue (loop ds ws res sq i s) = []"
proof (cases "i < length sq")
  case True
  from loop_next_shape [OF True, of ds ws res s] show ?thesis by auto
next
  case False
  from loop_done_shape [OF False, of ds ws res s] show ?thesis by auto
qed

lemma execute_queue: "queue (execute ds ws s) = queue s \<or> queue (execute ds ws s) = []"
proof (cases "isPerforming s")
  case True
  then show ?thesis by (simp add: execute_busy)
next
  case False
  show ?thesis
  proof (cases "queue s = []")
    case True
    with False show ?thesis by (simp add: execute_empty resolve_def)
  next
    case nonempty: False
    from loop_queue [of ds ws "[]" "sort_by compare_priority (queue s)" 0
        "s\<lparr>isPerforming := True, trace := trace s @ [Started (queue s)]\<rparr>"]
    show ?thesis using False nonempty by (simp add: execute_admit)
  qed
qed

lemma resume_queue: "queue (resume f s) = queue s \<or> queue (resume f s) = []"
proof (cases "at f")
  case AwaitPreDelay
  then show ?thesis by (simp add: resume_def invoke_def)
next
  case AwaitEffect
  show ?thesis
  proof (cases "record_outcome (effect (item f))")
    case (Inl x)
    with AwaitEffect show ?thesis by (simp add: resume_def Let_def)
  next
    case (Inr en)
    show ?thesis
    proof (cases "postDelay (item f) \<noteq> 0")
      case True
      with AwaitEffect Inr show ?thesis by (simp add: resume_def Let_def)
    next
      case False
      from loop_queue [of "deferred f" "owners f" "assign (ident (item f)) en (results f)"
          "sortedQueue f" "idx f"
          "s\<lparr>trace := trace s @ [Recorded (ident (item f)) en]\<rparr>"]
      show ?thesis using AwaitEffect Inr False by (simp add: resume_def Let_def)
    qed
  qed
next
  case AwaitPostDelay
  from loop_queue [of "deferred f" "owners f" "results f" "sortedQueue f" "idx f" s]
  show ?thesis using AwaitPostDelay by (simp add: resume_def)
qed

lemma step_distinct:
  assumes "distinct (map ident (queue s))"
  shows "distinct (map ident (queue (step e s)))"
proof (cases e)
  case (Orchestrate i eff opts)
  with assms show ?thesis by (simp add: orchestrate_distinct)
next
  case (Cancel i)
  with assms show ?thesis by (simp add: cancel_distinct)
next
  case Execute
  from execute_queue [of "[]" "[calls s]" "s\<lparr>calls := Suc (calls s)\<rparr>"] assms Execute
  show ?thesis by auto
next
  case (Resume n)
  show ?thesis
  proof (cases "n < length (passes s)")
    case True
    from resume_queue [of "passes s ! n"
        "s\<lparr>passes := take n (passes s) @ drop (Suc n) (passes s)\<rparr>"] assms Resume True
    show ?thesis by auto
  next
    case False
    with assms Resume show ?thesis by simp
  qed
qed

section \<open>A delay suspends the activation until its timer fires\<close>








section \<open>The claims\<close>

text \<open>The rewrite rules that evaluate a run on concrete events.\<close>

lemmas eval_defs = run_def init_def orchestrate_def mk_item_def cancel_def
  execute_busy execute_empty execute_admit loop_next loop_done
  resume_def invoke_def resolve_def Let_def compare_priority_def record_outcome_def
  assign_def no_options_def with_priority_def

lemmas eval_more = eval_defs invoked_def admitted_def current_pass_def priority_run_def

text \<open>
  C3. A pass calls the effects in descending order of priority, and items of equal
  priority in the order of their registration: the run order \<open>sort_by compare_priority q\<close>
  of a store \<open>q\<close> is descending, keeps the items of every priority \<open>p\<close> in their order in
  \<open>q\<close>, and is a permutation of \<open>q\<close>. In every reachable state the effects called since
  the last admission are the first ones of the run order of the store at that admission,
  in that order (also while the pass is suspended, and after it was ended by an
  exception); and whenever no pass is suspended, no call has been rejected and a pass has
  run (which is the case right after every finished pass), they are the whole run order.
  After registering \<open>a\<close> with priority 1, \<open>b\<close> with 3 and \<open>c\<close> with 2, the pass calls
  \<open>b\<close>, \<open>c\<close>, \<open>a\<close>.
\<close>

theorem run_order_by_priority:
  "descending (sort_by compare_priority q) \<and>
   filter (\<lambda>y. priority y = p) (sort_by compare_priority q) = filter (\<lambda>y. priority y = p) q \<and>
   mset (sort_by compare_priority q) = mset q \<and>
   invoked (current_pass (trace (run evs init))) =
     take (length (invoked (current_pass (trace (run evs init)))))
       (map ident (sort_by compare_priority (admitted (trace (run evs init))))) \<and>
   (passes (run evs init) = [] \<and> rejected (run evs init) = [] \<and>
    trace (run evs init) \<noteq> [] \<longrightarrow>
      invoked (current_pass (trace (run evs init))) =
        map ident (sort_by compare_priority (admitted (trace (run evs init))))) \<and>
   invoked (trace (run priority_run init)) = [''b'', ''c'', ''a'']"
proof (intro conjI impI)
  show "descending (sort_by compare_priority q)" by (rule sort_by_descending)
  show "filter (\<lambda>y. priority y = p) (sort_by compare_priority q) =
          filter (\<lambda>y. priority y = p) q" by (rule sort_by_stable)
  show "mset (sort_by compare_priority q) = mset q" by (rule sort_by_mset)
  show "invoked (trace (run priority_run init)) = [''b'', ''c'', ''a'']"
    by (simp add: eval_more)
  have "orchestrator_inv (run evs init)" by (rule run_inv)
  then have "prefix_ok (trace (run evs init))" by (simp add: orchestrator_inv_def)
  then show "invoked (current_pass (trace (run evs init))) =
     take (length (invoked (current_pass (trace (run evs init)))))
       (map ident (sort_by compare_priority (admitted (trace (run evs init)))))"
    by (simp add: prefix_ok_def)
next
  assume a: "passes (run evs init) = [] \<and> rejected (run evs init) = [] \<and>
    trace (run evs init) \<noteq> []"
  have "orchestrator_inv (run evs init)" by (rule run_inv)
  with a have "\<not> isPerforming (run evs init)" by (simp add: orchestrator_inv_def)
  with a have "current_pass (trace (run evs init)) =
                 pass_record (admitted (trace (run evs init)))"
    using idle_record(1) by blast
  then show "invoked (current_pass (trace (run evs init))) =
               map ident (sort_by compare_priority (admitted (trace (run evs init))))"
    by (simp add: invoked_pass_record)
qed

theorem run_order_by_priority_witness:
  "passes (run priority_run init) = [] \<and> rejected (run priority_run init) = [] \<and>
   trace (run priority_run init) \<noteq> [] \<and>
   map ident (admitted (trace (run priority_run init))) = [''a'', ''b'', ''c''] \<and>
   invoked (current_pass (trace (run priority_run init))) = [''b'', ''c'', ''a'']"
proof -
  have h: "passes (run priority_run init) = [] \<and> rejected (run priority_run init) = [] \<and>
           trace (run priority_run init) \<noteq> []"
    by (simp add: eval_more)
  have a: "map ident (sort_by compare_priority (admitted (trace (run priority_run init))))
             = [''b'', ''c'', ''a'']"
    by (simp add: eval_more)
  have b: "map ident (admitted (trace (run priority_run init))) = [''a'', ''b'', ''c'']"
    by (simp add: eval_more)
  from run_order_by_priority [of "[]" 0 priority_run] h a b show ?thesis by simp
qed




text \<open>
  C4. The claim is that a failing effect costs only its own entry: the other items still
  run and \<^verbatim>\<open>execute()\<close> is never rejected. The \<^verbatim>\<open>catch\<close> block takes the message with
  \<^verbatim>\<open>String(error)\<close> without a guard. With the items \<open>bad\<close> (priority 1, throws a value
  that cannot be converted) and \<open>good\<close>, the conversion throws inside \<^verbatim>\<open>catch\<close>: the
  promise of the caller is rejected and no results are delivered, \<open>good\<close> is never
  called, the store is not cleared and the busy flag stays set with no pass running, so
  that nothing can be resumed and a later \<^verbatim>\<open>execute()\<close> is only deferred.
\<close>

theorem unconvertible_error_rejects_execute:
  "map ident (queue (run (take 2 unconvertible_run) init)) = [''bad'', ''good''] \<and>
   invoked (trace (run (take 3 unconvertible_run) init)) = [''bad''] \<and>
   record_outcome (Throws Unconvertible) = Inl TypeError \<and>
   rejected (run unconvertible_run init) = [0] \<and>
   settled (run unconvertible_run init) = [] \<and>
   passes (run unconvertible_run init) = [] \<and>
   invoked (trace (run unconvertible_run init)) = [''bad''] \<and>
   isPerforming (run unconvertible_run init) \<and>
   map ident (queue (run unconvertible_run init)) = [''bad'', ''good''] \<and>
   step (Resume 0) (run unconvertible_run init) = run unconvertible_run init \<and>
   executionQueue (step Execute (run unconvertible_run init)) = [ [1] ] \<and>
   passes (step Execute (run unconvertible_run init)) = [] \<and>
   settled (step Execute (run unconvertible_run init)) = []"
  by (simp add: eval_defs unconvertible_run_def invoked_def)

text \<open>
  C7. The claim is that the map returned for a non-empty pass has exactly one entry per
  item of the pass, and that the store is cleared. The store is cleared, but the map can
  miss entries in two ways. When a continuation is drained at the end of the pass (one
  item \<open>a\<close>, a second call during the pass), the pass has built the entry of \<open>a\<close> and
  its caller is fulfilled with the empty object. And an item registered under the id
  \<^verbatim>\<open>__proto__\<close> is called like any other, but the assignment to \<^verbatim>\<open>results[item.id]\<close>
  creates no property: with nothing deferred the caller receives the entry of \<open>a\<close> only.
\<close>

theorem returned_map_misses_entries:
  "trace (run drained_run init) =
     [Started [mk_item ''a'' (Returns (Str ''A'')) no_options],
      Invoked ''a'', Recorded ''a'' (Val (Str ''A'')),
      PassDone [mk_item ''a'' (Returns (Str ''A'')) no_options] [(''a'', Val (Str ''A''))] ] \<and>
   map_of (settled (run drained_run init)) 0 = Some [] \<and>
   queue (run drained_run init) = [] \<and>
   map ident (admitted (trace (run proto_run init))) = [''__proto__'', ''a''] \<and>
   invoked (trace (run proto_run init)) = [''__proto__'', ''a''] \<and>
   executionQueue (run (take 4 proto_run) init) = [] \<and>
   settled (run proto_run init) = [(0, [(''a'', Val (Str ''A''))])]"
  by (simp add: eval_defs drained_run_def proto_run_def invoked_def admitted_def
        current_pass_def)

text \<open>
  C5. At most one pass runs at any moment. In every reachable state at most one
  activation is suspended in the loop, and the busy flag is set exactly when one is
  suspended or a call has been rejected (a pass that is ended by an exception leaves the
  flag set); an \<^verbatim>\<open>execute()\<close> call made while the flag is set only appends its
  continuation to the deferred list (no pass is started, nothing else changes); a step
  that ends a pass leaves the store empty, no pass running and the flag cleared; and from
  a state with an empty store and no pass running, every pass that runs later works only
  on items registered later.
\<close>

theorem one_pass_at_a_time:
  "length (passes (run evs init)) \<le> 1 \<and>
   (isPerforming (run evs init) \<longleftrightarrow>
      passes (run evs init) \<noteq> [] \<or> rejected (run evs init) \<noteq> []) \<and>
   (isPerforming (run evs init) \<longrightarrow>
      step Execute (run evs init) =
        (run evs init)\<lparr>calls := Suc (calls (run evs init)),
           executionQueue := executionQueue (run evs init) @ [ [calls (run evs init)] ]\<rparr>) \<and>
   (ends_pass (run evs init) (step e (run evs init)) \<longrightarrow>
      queue (step e (run evs init)) = [] \<and> passes (step e (run evs init)) = [] \<and>
      \<not> isPerforming (step e (run evs init))) \<and>
   (queue (run evs init) = [] \<and> passes (run evs init) = [] \<longrightarrow>
      (\<forall>f\<in>set (passes (run later (run evs init))).
         set (sortedQueue f) \<subseteq> set (registered later)))"
proof (intro conjI impI)
  have i: "orchestrator_inv (run evs init)" by (rule run_inv)
  from i show "length (passes (run evs init)) \<le> 1" by (simp add: orchestrator_inv_def)
  from i show "isPerforming (run evs init) \<longleftrightarrow>
      passes (run evs init) \<noteq> [] \<or> rejected (run evs init) \<noteq> []"
    by (simp add: orchestrator_inv_def)
next
  assume "isPerforming (run evs init)"
  then show "step Execute (run evs init) =
      (run evs init)\<lparr>calls := Suc (calls (run evs init)),
         executionQueue := executionQueue (run evs init) @ [ [calls (run evs init)] ]\<rparr>"
    by (simp add: execute_busy)
next
  assume e: "ends_pass (run evs init) (step e (run evs init))"
  from step_ends_pass [OF e] show "queue (step e (run evs init)) = []" by simp
next
  assume e: "ends_pass (run evs init) (step e (run evs init))"
  have "orchestrator_inv (run evs init)" by (rule run_inv)
  from ends_pass_idle [OF this e]
  show "passes (step e (run evs init)) = []" by simp
next
  assume e: "ends_pass (run evs init) (step e (run evs init))"
  from step_ends_pass [OF e] show "\<not> isPerforming (step e (run evs init))" by simp
next
  assume "queue (run evs init) = [] \<and> passes (run evs init) = []"
  then have "confined (set (registered later)) (run later (run evs init))"
    using run_confined by blast
  then show "\<forall>f\<in>set (passes (run later (run evs init))).
       set (sortedQueue f) \<subseteq> set (registered later)"
    by (simp add: confined_def)
qed

theorem one_pass_at_a_time_witness:
  "isPerforming (run overlap_run init) \<and>
   length (passes (step Execute (run overlap_run init))) = 1 \<and>
   executionQueue (step Execute (run overlap_run init)) = [ [1] ] \<and>
   ends_pass (step Execute (run overlap_run init))
     (step (Resume 0) (step Execute (run overlap_run init))) \<and>
   queue (step (Resume 0) (step Execute (run overlap_run init))) = [] \<and>
   passes (step (Resume 0) (step Execute (run overlap_run init))) = [] \<and>
   queue (run [] init) = [] \<and> passes (run [] init) = [] \<and>
   map sortedQueue (passes (run overlap_run (run [] init))) =
     [ [mk_item ''a'' (Returns (Str ''A'')) no_options] ] \<and>
   registered overlap_run = [mk_item ''a'' (Returns (Str ''A'')) no_options]"
proof -
  let ?E = "overlap_run @ [Execute]"
  let ?S = "step Execute (run overlap_run init)"
  have st: "run ?E init = ?S"
    by (simp add: run_def)
  have h1: "isPerforming (run overlap_run init)"
    by (simp add: eval_defs overlap_run_def)
  have h2: "ends_pass ?S (step (Resume 0) ?S)"
    by (simp add: eval_defs overlap_run_def ends_pass_def)
  have h3: "queue (run [] init) = [] \<and> passes (run [] init) = []"
    by (simp add: run_def init_def)
  have p: "length (passes ?S) = 1" "executionQueue ?S = [ [1] ]"
    by (simp_all add: eval_defs overlap_run_def)
  have r: "map sortedQueue (passes (run overlap_run (run [] init))) =
     [ [mk_item ''a'' (Returns (Str ''A'')) no_options] ]"
     "registered overlap_run = [mk_item ''a'' (Returns (Str ''A'')) no_options]"
    by (simp_all add: eval_defs overlap_run_def registered_def)
  from one_pass_at_a_time [of ?E "Resume 0" "[]", unfolded st] h2
  have e: "queue (step (Resume 0) ?S) = []" "passes (step (Resume 0) ?S) = []"
    by blast+
  from one_pass_at_a_time [of overlap_run "Resume 0" "[]"] h1
  have "step Execute (run overlap_run init) =
        (run overlap_run init)\<lparr>calls := Suc (calls (run overlap_run init)),
           executionQueue := executionQueue (run overlap_run init) @
             [ [calls (run overlap_run init)] ]\<rparr>"
    by blast
  from one_pass_at_a_time [of "[]" "Resume 0" overlap_run] h3
  have "\<forall>f\<in>set (passes (run overlap_run (run [] init))).
         set (sortedQueue f) \<subseteq> set (registered overlap_run)"
    by blast
  from h1 p h2 e h3 r show ?thesis by blast
qed

text \<open>
  C6. The store never holds two items with the same id: this holds in every reachable
  state, and every single operation preserves it (from any state); after registering the
  id \<open>i\<close> the only item of the store with that id is the new one. Registering \<open>x\<close> with
  priority 1 and then with priority 5 gives a pass over the one item of priority 5 and a
  results object with the one entry for \<open>x\<close>.
\<close>

theorem ids_are_unique:
  "distinct (map ident (queue (run evs init))) \<and>
   (distinct (map ident (queue s)) \<longrightarrow> distinct (map ident (queue (step e s)))) \<and>
   filter (\<lambda>x. ident x = i) (queue (step (Orchestrate i eff opts) (run evs init))) =
     [mk_item i eff opts] \<and>
   trace (run reregister_run init) =
     [Started [mk_item ''x'' (Returns (Str ''new'')) (with_priority 5)],
      Invoked ''x'', Recorded ''x'' (Val (Str ''new'')),
      PassDone [mk_item ''x'' (Returns (Str ''new'')) (with_priority 5)]
        [(''x'', Val (Str ''new''))] ] \<and>
   priority (mk_item ''x'' (Returns (Str ''new'')) (with_priority 5)) = 5 \<and>
   settled (run reregister_run init) = [(0, [(''x'', Val (Str ''new''))])]"
proof (intro conjI impI)
  have i: "orchestrator_inv (run evs init)" by (rule run_inv)
  then show d: "distinct (map ident (queue (run evs init)))" by (simp add: orchestrator_inv_def)
  have "filter (\<lambda>x. ident x = i) (filter (\<lambda>x. ident x \<noteq> i) (queue (run evs init))) = []"
    by (simp add: filter_empty_conv)
  then show "filter (\<lambda>x. ident x = i) (queue (step (Orchestrate i eff opts) (run evs init))) =
     [mk_item i eff opts]"
    using orchestrate_queue [OF d, of i eff opts] by (simp add: mk_item_def)
next
  assume "distinct (map ident (queue s))"
  then show "distinct (map ident (queue (step e s)))" by (rule step_distinct)
qed (simp_all add: eval_defs reregister_run_def)

theorem ids_are_unique_witness:
  "distinct (map ident (queue (run (take 1 reregister_run) init))) \<and>
   queue (step (Orchestrate ''x'' (Returns (Str ''new'')) (with_priority 5))
            (run (take 1 reregister_run) init)) =
     [mk_item ''x'' (Returns (Str ''new'')) (with_priority 5)]"
proof -
  let ?s = "run (take 1 reregister_run) init"
  have h: "distinct (map ident (queue ?s))"
    by (simp add: eval_defs reregister_run_def)
  have q: "queue (step (Orchestrate ''x'' (Returns (Str ''new'')) (with_priority 5)) ?s) =
     [mk_item ''x'' (Returns (Str ''new'')) (with_priority 5)]"
    by (simp add: eval_defs reregister_run_def)
  from ids_are_unique [of "take 1 reregister_run" ?s
      "Orchestrate ''x'' (Returns (Str ''new'')) (with_priority 5)" "''x''"
      "Returns (Str ''new'')" "with_priority 5"] h q
  show ?thesis by simp
qed



text \<open>
  C10. Registering an id that is already in the store moves it to the end of the
  insertion order: the store becomes the other items in their order followed by the new
  item, and among the items of the new item's priority the run order has the new item
  last.
\<close>

theorem reregistered_item_runs_last:
  assumes "i \<in> ident ` set (queue (run evs init))"
  shows "queue (step (Orchestrate i eff opts) (run evs init)) =
           filter (\<lambda>x. ident x \<noteq> i) (queue (run evs init)) @ [mk_item i eff opts] \<and>
         filter (\<lambda>y. priority y = priority (mk_item i eff opts))
           (sort_by compare_priority (queue (step (Orchestrate i eff opts) (run evs init)))) =
           filter (\<lambda>y. priority y = priority (mk_item i eff opts))
             (filter (\<lambda>x. ident x \<noteq> i) (queue (run evs init))) @ [mk_item i eff opts]"
proof -
  have "orchestrator_inv (run evs init)" by (rule run_inv)
  then have d: "distinct (map ident (queue (run evs init)))" by (simp add: orchestrator_inv_def)
  have q: "queue (step (Orchestrate i eff opts) (run evs init)) =
           filter (\<lambda>x. ident x \<noteq> i) (queue (run evs init)) @ [mk_item i eff opts]"
    using orchestrate_queue [OF d] by simp
  show ?thesis unfolding q by (simp add: sort_by_stable)
qed

theorem reregistered_item_runs_last_witness:
  "''a'' \<in> ident ` set (queue (run tie_run init)) \<and>
   map ident (queue (run tie_run init)) = [''a'', ''b''] \<and>
   map ident (queue (step (Orchestrate ''a'' (Returns (Str ''A2'')) no_options)
                       (run tie_run init))) = [''b'', ''a''] \<and>
   invoked (trace (run (tie_run @ [Orchestrate ''a'' (Returns (Str ''A2'')) no_options,
                                  Execute, Resume 0, Resume 0]) init)) = [''b'', ''a'']"
proof -
  have h: "''a'' \<in> ident ` set (queue (run tie_run init))"
    by (simp add: eval_defs tie_run_def)
  have q: "map ident (queue (run tie_run init)) = [''a'', ''b'']"
    by (simp add: eval_defs tie_run_def)
  have f: "map ident (filter (\<lambda>x. ident x \<noteq> ''a'') (queue (run tie_run init))
             @ [mk_item ''a'' (Returns (Str ''A2'')) no_options]) = [''b'', ''a'']"
    by (simp add: eval_defs tie_run_def)
  have t: "invoked (trace (run (tie_run @ [Orchestrate ''a'' (Returns (Str ''A2'')) no_options,
                                  Execute, Resume 0, Resume 0]) init)) = [''b'', ''a'']"
    by (simp add: eval_defs tie_run_def invoked_def)
  from reregistered_item_runs_last [OF h, of "Returns (Str ''A2'')" no_options] h q f t
  show ?thesis by simp
qed

text \<open>
  C1. The claim is that the caller whose \<^verbatim>\<open>execute()\<close> admitted a pass receives the
  results of that pass also when a deferred continuation is drained at its end. The code
  returns \<^verbatim>\<open>nextExecution()\<close> instead: with one item \<open>a\<close>, a first call (caller 0) that
  admits the pass and a second call (caller 1) made while it is suspended, the pass ends
  with the results \<^verbatim>\<open>{a: 'A'}\<close>, but the promises of both callers are fulfilled with the
  empty object.
\<close>

theorem drained_pass_returns_empty:
  "isPerforming (run (take 2 drained_run) init) \<and>
   executionQueue (run (take 3 drained_run) init) = [ [1] ] \<and>
   trace (run drained_run init) =
     [Started [mk_item ''a'' (Returns (Str ''A'')) no_options],
      Invoked ''a'', Recorded ''a'' (Val (Str ''A'')),
      PassDone [mk_item ''a'' (Returns (Str ''A'')) no_options] [(''a'', Val (Str ''A''))] ] \<and>
   settled (run drained_run init) = [(1, []), (0, [])] \<and>
   map_of (settled (run drained_run init)) 0 \<noteq> Some [(''a'', Val (Str ''A''))]"
  by (simp add: eval_defs drained_run_def)

text \<open>
  C2. The claim is that every \<^verbatim>\<open>execute()\<close> call made during a pass is resolved in the
  end. With two such calls (callers 1 and 2) the end of the pass drains the continuation
  of caller 1 only; its nested \<^verbatim>\<open>execute()\<close> returns at the empty-store test without
  draining further. The orchestrator is then idle (no pass, flag cleared, store empty,
  nothing to resume) with the continuation of caller 2 still in the deferred list and its
  promise unsettled; a further \<^verbatim>\<open>execute()\<close> on the empty store does not drain it either.
\<close>

theorem second_deferred_call_hangs:
  "executionQueue (run (take 4 starved_run) init) = [ [1], [2] ] \<and>
   passes (run starved_run init) = [] \<and>
   \<not> isPerforming (run starved_run init) \<and>
   queue (run starved_run init) = [] \<and>
   executionQueue (run starved_run init) = [ [2] ] \<and>
   settled (run starved_run init) = [(1, []), (0, [])] \<and>
   map_of (settled (run starved_run init)) 2 = None \<and>
   step (Resume 0) (run starved_run init) = run starved_run init \<and>
   executionQueue (step Execute (run starved_run init)) = [ [2] ] \<and>
   settled (step Execute (run starved_run init)) = [(1, []), (0, []), (3, [])]"
  by (simp add: eval_defs starved_run_def)

end
